theory Spec2Isabelle
  imports
    Complex_Main
    "HOL-Library.Word"
    "HOL-Library.Log_Nat"
    "HOL-Library.Signed_Division"
begin

section \<open>Binary floating point\<close>

text \<open>
  The firmware simulation computes with C's \<open>float\<close> and \<open>double\<close>. A finite
  floating-point number is modelled by the rational number it denotes, and every
  operation by the exact rational operation followed by rounding to the format's
  precision (24 significant bits for \<open>float\<close>, 53 for \<open>double\<close>), to the nearest
  representable number, ties to the even significand: IEEE 754 arithmetic in its default
  rounding mode, each operation rounded to its own type. The exponent range is not
  modelled: the values of this program stay far inside it (the reciprocal of 200, at
  most 1000 as a register value, and a clock below 2^31 milliseconds).
\<close>

definition round_half_even :: "rat \<Rightarrow> int" where
  "round_half_even x =
     (let f = \<lfloor>x\<rfloor>; d = x - of_int f
      in if d < 1 / 2 then f
         else if 1 / 2 < d then f + 1
         else if even f then f else f + 1)"

text \<open>The binade of a positive number \<open>x\<close> is the \<open>e\<close> with \<open>2^e \<le> x < 2^(e+1)\<close>.\<close>

definition binade :: "rat \<Rightarrow> int" where
  "binade x = (if 1 \<le> x then bitlen \<lfloor>x\<rfloor> - 1 else - bitlen (\<lceil>1 / x\<rceil> - 1))"

definition fl :: "nat \<Rightarrow> rat \<Rightarrow> rat" where
  "fl prec x =
     (if x = 0 then 0
      else let e = binade \<bar>x\<bar> - (int prec - 1)
           in of_int (round_half_even (x / 2 powi e)) * 2 powi e)"

definition single :: "rat \<Rightarrow> rat" where
  "single x = fl 24 x"

definition double :: "rat \<Rightarrow> rat" where
  "double x = fl 53 x"

text \<open>The conversion \<open>(int) x\<close> of C discards the fractional part.\<close>

definition to_int :: "rat \<Rightarrow> int" where
  "to_int x = (if 0 \<le> x then \<lfloor>x\<rfloor> else \<lceil>x\<rceil>)"

section \<open>Hardware configuration and alarm states\<close>

definition TIMER_RELOAD_VAL :: int where
  "TIMER_RELOAD_VAL = 1000"

definition MAX_HR_LIMIT :: rat where
  "MAX_HR_LIMIT = 200"

definition SOURCE_FILE :: string where
  "SOURCE_FILE = ''patient_data.csv''"

definition STATUS_NORMAL :: "32 word" where
  "STATUS_NORMAL = 0x0000"

definition STATUS_WARNING :: "32 word" where
  "STATUS_WARNING = 0x5555"

definition STATUS_CRITICAL :: "32 word" where
  "STATUS_CRITICAL = 0xAAAA"

definition STATUS_FAILURE :: "32 word" where
  "STATUS_FAILURE = 0xFFFF"

section \<open>Driver implementations\<close>

text \<open>
  \<open>compute_pwm_register\<close>: the two clamping assignments, then
  \<open>(int)((float)heart_rate_input / MAX_HR_LIMIT * TIMER_RELOAD_VAL)\<close>. The operand is
  converted to \<open>float\<close>; the division by the \<open>double\<close> constant and the multiplication
  by the converted integer constant are \<open>double\<close> operations, each rounded. The C
  parameter is a 32-bit \<open>int\<close>; the model takes any integer, and no integer arithmetic
  of the function can overflow.
\<close>

definition compute_pwm_register :: "int \<Rightarrow> int" where
  "compute_pwm_register heart_rate_input =
     (let h1 = (if heart_rate_input > to_int MAX_HR_LIMIT then to_int MAX_HR_LIMIT
                else heart_rate_input);
          h2 = (if h1 < 0 then 0 else h1)
      in to_int (double (double (single (of_int h2) / MAX_HR_LIMIT)
                         * of_int TIMER_RELOAD_VAL)))"

text \<open>
  \<open>evaluate_alarm_condition\<close> returns the mask and copies a label into the caller's
  buffer; the model returns both. The buffer of the only caller has 60 bytes and the
  longest label 21 characters.
\<close>

definition evaluate_alarm_condition :: "int \<Rightarrow> 32 word \<times> string" where
  "evaluate_alarm_condition oxygen_sat =
     (if oxygen_sat = 0 then (STATUS_FAILURE, ''SENSOR ERROR'')
      else if oxygen_sat < 90 then (STATUS_CRITICAL, ''CRITICAL: Odd Pins ON'')
      else if oxygen_sat < 95 then (STATUS_WARNING, ''WARNING: Even Pins ON'')
      else (STATUS_NORMAL, ''NORMAL''))"

section \<open>Reading the data stream\<close>

text \<open>
  \<open>fscanf(data_stream, "%d,%d", ...)\<close> on the unread rest of the file. A \<open>%d\<close>
  directive skips white space, then takes an optional sign and the longest run of
  decimal digits, which must not be empty; the comma of the format must be the very next
  character. The loop of \<open>main\<close> only asks whether the call returned 2, so the model
  returns the two numbers and the unread rest when it does and \<open>None\<close> when it does not
  (end of file, or a directive that does not match).

  The two numbers are stored in \<open>int\<close> variables of 32 bits. For a number of the file
  that does not fit, the C standard leaves the stored value open, and a C library
  typically stores a wrapped one; the model keeps the mathematical value. So the model
  and the program agree on the numbers that satisfy \<open>int_range\<close>, and every statement
  below about the records of a whole file is made for files whose numbers do.
\<close>

definition int_range :: "int \<Rightarrow> bool" where
  "int_range i \<longleftrightarrow> - 2147483648 \<le> i \<and> i \<le> 2147483647"

definition isspace :: "char \<Rightarrow> bool" where
  "isspace c \<longleftrightarrow> c \<in> set [CHR '' '', CHR 0x09, CHR 0x0A, CHR 0x0B, CHR 0x0C, CHR 0x0D]"

definition isdigit :: "char \<Rightarrow> bool" where
  "isdigit c \<longleftrightarrow> c \<in> set ''0123456789''"

definition digit_val :: "char \<Rightarrow> int" where
  "digit_val c = of_char c - 48"

definition digits_val :: "string \<Rightarrow> int" where
  "digits_val ds = foldl (\<lambda>a c. 10 * a + digit_val c) 0 ds"

definition scan_sign :: "string \<Rightarrow> bool \<times> string" where
  "scan_sign s =
     (case s of
        [] \<Rightarrow> (False, s)
      | c # r \<Rightarrow> if c = CHR ''-'' then (True, r)
                 else if c = CHR ''+'' then (False, r)
                 else (False, s))"

definition scan_int :: "string \<Rightarrow> (int \<times> string) option" where
  "scan_int s =
     (let (neg, s2) = scan_sign (dropWhile isspace s);
          ds = takeWhile isdigit s2
      in if ds = [] then None
         else Some (if neg then - digits_val ds else digits_val ds, dropWhile isdigit s2))"

definition fscanf_d_d :: "string \<Rightarrow> ((int \<times> int) \<times> string) option" where
  "fscanf_d_d s =
     (case scan_int s of
        None \<Rightarrow> None
      | Some (a, s1) \<Rightarrow>
          (case s1 of
             [] \<Rightarrow> None
           | c # s2 \<Rightarrow>
               if c = CHR '','' then
                 (case scan_int s2 of
                    None \<Rightarrow> None
                  | Some (b, s3) \<Rightarrow> Some ((a, b), s3))
               else None))"

section \<open>The main program\<close>

text \<open>
  Standard output is the sequence of \<open>printf\<close> calls, each with its format string and
  its arguments; what the C library makes of a format is not part of the program.
\<close>

datatype printf_arg = Arg_int int | Arg_double rat | Arg_uint "32 word" | Arg_str string

type_synonym printf_call = "string \<times> printf_arg list"

record vars =
  sys_time_sec :: rat
  packet_counter :: int
  out :: "printf_call list"

text \<open>The four \<open>printf\<close> calls of the display branch.\<close>

definition status_block :: "rat \<Rightarrow> int \<Rightarrow> int \<Rightarrow> int \<Rightarrow> 32 word \<Rightarrow> string \<Rightarrow> printf_call list" where
  "status_block t hr_reading spo2_reading ccr_output gpio_odr alarm_desc =
     (let duty_perc = single (double (single (of_int ccr_output) / 10))
      in [(''Time: %.3f s | BPM: %d | SpO2: %d\<newline>'',
             [Arg_double t, Arg_int hr_reading, Arg_int spo2_reading]),
          (''  -> [PWM] Calculated CCR Value: %d (Duty: %.1f%%)\<newline>'',
             [Arg_int ccr_output, Arg_double duty_perc]),
          (''  -> [GPIO] Port D ODR Value: 0x%04X (%s)\<newline>'',
             [Arg_uint gpio_odr, Arg_str alarm_desc]),
          (''--------------------------------------------------------------\<newline>'', [])])"

text \<open>The statement \<open>sys_time_sec += 0.001\<close>: a \<open>double\<close> addition of a \<open>double\<close> constant.\<close>

definition advance_clock :: "rat \<Rightarrow> rat" where
  "advance_clock t = double (t + double (1 / 1000))"

text \<open>
  One pass through the body of the \<open>while\<close> loop, for the record just read. The
  counter is an \<open>int\<close> of C, whose \<open>%\<close> takes the sign of the dividend (\<open>smod\<close>); its
  increment is defined by C as long as the result satisfies \<open>int_range\<close>, that is for
  the first 2^31 - 1 records of a stream, and the model, an unbounded integer, agrees
  with it there. The statements below about the counter carry that bound.
\<close>

definition loop_body :: "vars \<Rightarrow> int \<times> int \<Rightarrow> vars" where
  "loop_body v r =
     (let hr_reading = fst r; spo2_reading = snd r;
          ccr_output = compute_pwm_register hr_reading;
          (gpio_odr, alarm_desc) = evaluate_alarm_condition spo2_reading;
          counter = packet_counter v + 1;
          is_start = (counter = 1);
          is_second_mark = (counter smod 1000 = 0);
          is_alarm_active = (gpio_odr \<noteq> STATUS_NORMAL)
      in \<lparr> sys_time_sec = advance_clock (sys_time_sec v),
           packet_counter = counter,
           out = (if is_start \<or> is_second_mark \<or> is_alarm_active
                  then out v @ status_block (sys_time_sec v) hr_reading spo2_reading
                                 ccr_output gpio_odr alarm_desc
                  else out v) \<rparr>)"

function read_loop :: "vars \<Rightarrow> string \<Rightarrow> vars" where
  "read_loop v s =
     (case fscanf_d_d s of
        None \<Rightarrow> v
      | Some (r, rest) \<Rightarrow> read_loop (loop_body v r) rest)"
  by pat_completeness auto
termination
proof (relation "measure (\<lambda>(v, s). length s)")
  show "wf (measure (\<lambda>(v :: vars, s :: string). length s))"
    by simp
next
  fix v :: vars and s rest :: string and x :: "(int \<times> int) \<times> string" and r :: "int \<times> int"
  assume scanned: "fscanf_d_d s = Some x" and x: "(r, rest) = x"
  have shorter: "length t < length u" if "scan_int u = Some (n, t)" for u t n
  proof -
    obtain neg u2 where sg: "scan_sign (dropWhile isspace u) = (neg, u2)"
      by (cases "scan_sign (dropWhile isspace u)")
    from that sg have ne: "takeWhile isdigit u2 \<noteq> []" and t: "t = dropWhile isdigit u2"
      by (auto simp: scan_int_def Let_def split: if_splits)
    have "length (takeWhile isdigit u2) + length (dropWhile isdigit u2) = length u2"
      by (metis length_append takeWhile_dropWhile_id)
    with ne t have "length t < length u2"
      by (cases "takeWhile isdigit u2") auto
    moreover have "length u2 \<le> length (dropWhile isspace u)"
    proof -
      have "length (snd (scan_sign z)) \<le> length z" for z
        by (cases z) (auto simp: scan_sign_def)
      from this [of "dropWhile isspace u"] sg show ?thesis
        by simp
    qed
    moreover have "length (dropWhile isspace u) \<le> length u"
      by (rule length_dropWhile_le)
    ultimately show ?thesis by linarith
  qed
  from scanned x have "length rest < length s"
    by (auto simp: fscanf_d_d_def split: option.splits list.splits if_splits
        dest!: shorter)
  then show "((loop_body v r, rest), (v, s)) \<in> measure (\<lambda>(v, s). length s)"
    by simp
qed

declare read_loop.simps [simp del]

text \<open>
  What the program can see of its surroundings, and what it leaves behind. \<open>files\<close>
  gives the content of each file that \<open>fopen\<close> can open for reading; \<open>stdin\<close> is the
  unread standard input, from which \<open>getchar\<close> takes one character if there is one.
  \<open>setlocale(LC_ALL, "C")\<close> selects the C locale by name and consults nothing.
\<close>

record world =
  argv :: "string list"
  environ :: "string \<Rightarrow> string option"
  files :: "string \<Rightarrow> string option"
  stdin :: string

record outcome =
  exit_code :: int
  stdout :: "printf_call list"
  stdin_rest :: string

definition missing_file_report :: "printf_call list" where
  "missing_file_report =
     [(''[SYSTEM ERROR] Input file '%s' is missing.\<newline>'', [Arg_str SOURCE_FILE]),
      (''Please verify the file location.\<newline>'', [])]"

definition start_banner :: "printf_call list" where
  "start_banner =
     [(''--- BME3323 FIRMWARE SIMULATION: STARTING ---\<newline>'', []),
      (''--- Processing Patient Vitals... ---\<newline>\<newline>'', [])]"

definition completion_notice :: printf_call where
  "completion_notice = (''\<newline>>>> Simulation Completed Successfully.\<newline>'', [])"

definition exit_prompt :: printf_call where
  "exit_prompt = (''Press Enter to exit...'', [])"

text \<open>The variables when the loop is entered: clock and counter at 0, the banner printed.\<close>

definition loop_entry :: vars where
  "loop_entry = \<lparr> sys_time_sec = 0, packet_counter = 0, out = start_banner \<rparr>"

definition main :: "world \<Rightarrow> outcome" where
  "main w =
     (case files w SOURCE_FILE of
        None \<Rightarrow>
          \<lparr> exit_code = 1, stdout = missing_file_report, stdin_rest = stdin w \<rparr>
      | Some data_stream \<Rightarrow>
          (let v = read_loop loop_entry data_stream
           in \<lparr> exit_code = 0,
                stdout = out v @ [completion_notice, exit_prompt],
                stdin_rest = drop 1 (stdin w) \<rparr>))"

section \<open>Notions for stating the properties\<close>

text \<open>The clock after \<open>n\<close> passes through the loop body.\<close>

definition clock_after :: "nat \<Rightarrow> rat" where
  "clock_after n = (advance_clock ^^ n) 0"

text \<open>
  What \<open>printf\<close> shows for a clock value under \<open>%.3f\<close>: the decimal number with three
  digits after the point that is nearest to it, here as a count of thousandths. (A clock
  value never lies halfway between two such numbers: a multiple of 1/2000 that is not one
  of 1/1000 is no binary fraction.)
\<close>

definition shown_millis :: "rat \<Rightarrow> int" where
  "shown_millis t = round_half_even (t * 1000)"

text \<open>
  The sequences of records on which the model is the program: every number fits an
  \<open>int\<close>, and the counter can count them all.
\<close>

definition int_records :: "(int \<times> int) list \<Rightarrow> bool" where
  "int_records rs \<longleftrightarrow>
     list_all (\<lambda>r. int_range (fst r) \<and> int_range (snd r)) rs \<and> int_range (int (length rs))"

text \<open>
  The display rule of the specification, for the \<open>n\<close>-th record of the stream: it is
  the first record, or \<open>n\<close> is a multiple of 1000, or its alarm mask is not 0x0000.
\<close>

definition displayed :: "nat \<Rightarrow> int \<times> int \<Rightarrow> bool" where
  "displayed n r \<longleftrightarrow> n = 1 \<or> 1000 dvd n \<or> fst (evaluate_alarm_condition (snd r)) \<noteq> 0x0000"

text \<open>The status block of the \<open>n\<close>-th record of the stream, the clock being read before
  it advances.\<close>

definition record_block :: "nat \<Rightarrow> int \<times> int \<Rightarrow> printf_call list" where
  "record_block n r =
     status_block (clock_after (n - 1)) (fst r) (snd r) (compute_pwm_register (fst r))
       (fst (evaluate_alarm_condition (snd r))) (snd (evaluate_alarm_condition (snd r)))"

text \<open>
  The input format of the specification: one record per line, two integers in decimal
  notation with a comma between them.
\<close>

definition digit_char :: "nat \<Rightarrow> char" where
  "digit_char d = ''0123456789'' ! d"

fun dec_digits :: "nat \<Rightarrow> string" where
  "dec_digits n = (if n < 10 then [digit_char n] else dec_digits (n div 10) @ [digit_char (n mod 10)])"

declare dec_digits.simps [simp del]

definition dec :: "int \<Rightarrow> string" where
  "dec i = (if i < 0 then CHR ''-'' # dec_digits (nat (- i)) else dec_digits (nat i))"

definition csv_line :: "int \<times> int \<Rightarrow> string" where
  "csv_line r = dec (fst r) @ '','' @ dec (snd r) @ ''\<newline>''"

definition csv_text :: "(int \<times> int) list \<Rightarrow> string" where
  "csv_text rs = concat (map csv_line rs)"

text \<open>
  A world in which the program finds its input file with the given text and nothing
  else: no arguments, no environment, no other file, standard input at its end.
\<close>

definition only_file :: "string \<Rightarrow> world" where
  "only_file text =
     \<lparr> argv = [], environ = (\<lambda>name. None),
       files = (\<lambda>path. if path = SOURCE_FILE then Some text else None),
       stdin = [] \<rparr>"

text \<open>The same world without the input file.\<close>

definition no_files :: world where
  "no_files = \<lparr> argv = [], environ = (\<lambda>name. None), files = (\<lambda>path. None), stdin = [] \<rparr>"

section \<open>Evaluating the floating-point operations\<close>

lemma floor_rat_numeral_div: "\<lfloor>numeral a / numeral b :: rat\<rfloor> = numeral a div numeral b"
  by (metis floor_divide_of_int_eq of_int_numeral)

lemma floor_rat_one_div: "\<lfloor>1 / numeral b :: rat\<rfloor> = 1 div numeral b"
  by (metis floor_divide_of_int_eq of_int_numeral of_int_1)

lemma ceiling_rat_numeral_div:
  "\<lceil>numeral a / numeral b :: rat\<rceil> = - (- numeral a div numeral b)"
  by (metis ceiling_def floor_divide_of_int_eq minus_divide_left of_int_minus of_int_numeral)

lemma ceiling_rat_one_div: "\<lceil>1 / numeral b :: rat\<rceil> = - (- 1 div numeral b)"
  by (metis ceiling_def floor_divide_of_int_eq minus_divide_left of_int_minus of_int_numeral
      of_int_1)

lemmas fp_eval =
  single_def double_def to_int_def fl_def binade_def round_half_even_def compute_bitlen Let_def
  floor_rat_numeral_div ceiling_rat_numeral_div floor_rat_one_div ceiling_rat_one_div

section \<open>Properties of the rounding\<close>

lemma two_powi_less_iff: "(2 :: rat) powi a < 2 powi b \<longleftrightarrow> a < b"
proof
  assume "(2 :: rat) powi a < 2 powi b"
  show "a < b"
  proof (rule ccontr)
    assume "\<not> a < b"
    then have "b \<le> a" by simp
    then have "(2 :: rat) powi b \<le> 2 powi a"
      by (rule power_int_increasing) simp
    with \<open>(2 :: rat) powi a < 2 powi b\<close> show False by simp
  qed
next
  assume "a < b"
  then show "(2 :: rat) powi a < 2 powi b"
    by (rule power_int_strict_increasing) simp
qed

lemma two_powi_le_iff: "(2 :: rat) powi a \<le> 2 powi b \<longleftrightarrow> a \<le> b"
  using two_powi_less_iff [of b a] by (auto simp: not_less [symmetric])

lemma two_powi_Suc: "(2 :: rat) powi (e + 1) = 2 * 2 powi e"
  by (simp add: power_int_add)

lemma binade_bounds:
  assumes "0 < x"
  shows "2 powi binade x \<le> x" and "x < 2 powi (binade x + 1)"
proof -
  have "2 powi binade x \<le> x \<and> x < 2 powi (binade x + 1)"
  proof (cases "1 \<le> x")
    case True
    define n where "n = \<lfloor>x\<rfloor>"
    from True have n: "0 < n" by (simp add: n_def)
    then have len: "1 \<le> bitlen n"
      using bitlen_nonneg [of n] bitlen_eq_zero_iff [of n] by linarith
    from bitlen_bounds [OF n]
    have lo: "2 ^ nat (bitlen n - 1) \<le> n" and hi: "n < 2 ^ nat (bitlen n)" by simp_all
    have b: "binade x = bitlen n - 1"
      using True by (simp add: binade_def n_def)
    have "(2 :: rat) powi (bitlen n - 1) = of_int (2 ^ nat (bitlen n - 1))"
      using len by (simp add: power_int_nonneg_exp)
    also have "\<dots> \<le> of_int n"
      using lo by (simp only: of_int_le_iff)
    also have "\<dots> \<le> x"
      by (simp add: n_def)
    finally have low: "2 powi binade x \<le> x"
      by (simp add: b)
    have "x < of_int (n + 1)"
      by (simp add: n_def) linarith
    also have "\<dots> \<le> of_int (2 ^ nat (bitlen n))"
    proof -
      from hi have "n + 1 \<le> 2 ^ nat (bitlen n)" by simp
      then show ?thesis by (simp only: of_int_le_iff)
    qed
    also have "\<dots> = (2 :: rat) powi (bitlen n)"
      using len by (simp add: power_int_nonneg_exp)
    finally have "x < 2 powi (binade x + 1)"
      by (simp add: b)
    with low show ?thesis ..
  next
    case False
    with assms have x: "0 < x" "x < 1" by simp_all
    define m where "m = \<lceil>1 / x\<rceil> - 1"
    from x have "1 < 1 / x" by simp
    then have "1 < \<lceil>1 / x\<rceil>" by (simp add: less_ceiling_iff)
    then have m: "0 < m" by (simp add: m_def)
    then have len: "1 \<le> bitlen m"
      using bitlen_nonneg [of m] bitlen_eq_zero_iff [of m] by linarith
    from bitlen_bounds [OF m]
    have lo: "2 ^ nat (bitlen m - 1) \<le> m" and hi: "m < 2 ^ nat (bitlen m)" by simp_all
    have b: "binade x = - bitlen m"
      using False by (simp add: binade_def m_def)
    have "1 / x \<le> of_int (m + 1)"
      by (simp add: m_def)
    also have "\<dots> \<le> of_int (2 ^ nat (bitlen m))"
    proof -
      from hi have "m + 1 \<le> 2 ^ nat (bitlen m)" by simp
      then show ?thesis by (simp only: of_int_le_iff)
    qed
    also have "\<dots> = (2 :: rat) powi (bitlen m)"
      using len by (simp add: power_int_nonneg_exp)
    finally have "1 / x \<le> 2 powi (bitlen m)" .
    with x have "1 \<le> x * 2 powi (bitlen m)"
      by (simp add: field_simps)
    then have low: "2 powi binade x \<le> x"
      by (simp add: b power_int_minus field_simps)
    have "(2 :: rat) powi (bitlen m - 1) = of_int (2 ^ nat (bitlen m - 1))"
      using len by (simp add: power_int_nonneg_exp)
    also have "\<dots> \<le> of_int m"
      using lo by (simp only: of_int_le_iff)
    also have "\<dots> < 1 / x"
      by (simp add: m_def) linarith
    finally have "2 powi (bitlen m - 1) < 1 / x" .
    with x have "x * 2 powi (bitlen m - 1) < 1"
      by (simp add: field_simps)
    moreover have "(2 :: rat) powi (- bitlen m + 1) * 2 powi (bitlen m - 1) = 1"
      by (simp flip: power_int_add)
    ultimately have "x * 2 powi (bitlen m - 1) < 2 powi (- bitlen m + 1) * 2 powi (bitlen m - 1)"
      by simp
    moreover have "(0 :: rat) < 2 powi (bitlen m - 1)"
      by simp
    ultimately have "x < 2 powi (- bitlen m + 1)"
      by (simp only: mult_less_cancel_right_pos)
    then have "x < 2 powi (binade x + 1)"
      by (simp add: b)
    with low show ?thesis ..
  qed
  then show "2 powi binade x \<le> x" and "x < 2 powi (binade x + 1)" by simp_all
qed

lemma binade_unique:
  assumes "2 powi e \<le> x" and "x < 2 powi (e + 1)"
  shows "binade x = e"
proof -
  have "(0 :: rat) < 2 powi e" by simp
  with assms(1) have pos: "0 < x" by linarith
  from binade_bounds [OF pos] assms
  have "(2 :: rat) powi e < 2 powi (binade x + 1)" and "(2 :: rat) powi binade x < 2 powi (e + 1)"
    by linarith+
  then show ?thesis
    by (simp add: two_powi_less_iff)
qed

lemma binade_less:
  assumes "0 < x" and "x < 2 powi k"
  shows "binade x < k"
proof -
  from binade_bounds(1) [OF assms(1)] assms(2) have "(2 :: rat) powi binade x < 2 powi k"
    by linarith
  then show ?thesis by (simp add: two_powi_less_iff)
qed

lemma binade_mono:
  assumes "0 < x" and "x \<le> y"
  shows "binade x \<le> binade y"
proof -
  from assms have "0 < y" by linarith
  from binade_bounds(1) [OF assms(1)] binade_bounds(2) [OF this] assms(2)
  have "(2 :: rat) powi binade x < 2 powi (binade y + 1)" by linarith
  then show ?thesis by (simp add: two_powi_less_iff)
qed

lemma round_half_even_error: "\<bar>of_int (round_half_even y) - y\<bar> \<le> 1 / 2"
proof -
  have "of_int \<lfloor>y\<rfloor> \<le> y" and "y < of_int \<lfloor>y\<rfloor> + 1" by linarith+
  then show ?thesis
    by (auto simp: round_half_even_def Let_def)
qed

lemma round_half_even_near:
  assumes "\<bar>y - of_int m\<bar> < 1 / 2"
  shows "round_half_even y = m"
proof -
  from assms round_half_even_error [of y]
  have "\<bar>rat_of_int (round_half_even y) - of_int m\<bar> < 1" by linarith
  then have "\<bar>rat_of_int (round_half_even y - m)\<bar> < of_int 1" by simp
  then have "\<bar>round_half_even y - m\<bar> < 1"
    by (simp only: of_int_abs [symmetric] of_int_less_iff)
  then show ?thesis by simp
qed

lemma round_half_even_of_int: "round_half_even (of_int m) = m"
  by (rule round_half_even_near) simp

lemma round_half_even_mono:
  assumes "a \<le> b"
  shows "round_half_even a \<le> round_half_even b"
proof (cases "\<lfloor>a\<rfloor> = \<lfloor>b\<rfloor>")
  case True
  with assms show ?thesis
    by (auto simp: round_half_even_def Let_def)
next
  case False
  with assms have "\<lfloor>a\<rfloor> < \<lfloor>b\<rfloor>"
    using floor_mono [OF assms] by linarith
  moreover have "round_half_even a \<le> \<lfloor>a\<rfloor> + 1" and "\<lfloor>b\<rfloor> \<le> round_half_even b"
    by (auto simp: round_half_even_def Let_def)
  ultimately show ?thesis by linarith
qed

lemma powi_split: "(2 :: rat) powi (int n + e) = 2 ^ n * 2 powi e"
  by (simp add: power_int_add)

lemma powi_split_pred:
  assumes "0 < p"
  shows "(2 :: rat) powi (b - (int p - 1)) * 2 ^ (p - 1) = 2 powi b"
    and "(2 :: rat) powi (b - (int p - 1)) * 2 ^ p = 2 powi (b + 1)"
proof -
  from assms have "int (p - 1) + (b - (int p - 1)) = b"
    by simp
  then have "(2 :: rat) powi b = 2 powi (int (p - 1) + (b - (int p - 1)))"
    by (simp only:)
  then show "(2 :: rat) powi (b - (int p - 1)) * 2 ^ (p - 1) = 2 powi b"
    by (simp only: powi_split mult.commute)
  have "int p + (b - (int p - 1)) = b + 1"
    by simp
  then have "(2 :: rat) powi (b + 1) = 2 powi (int p + (b - (int p - 1)))"
    by (simp only:)
  then show "(2 :: rat) powi (b - (int p - 1)) * 2 ^ p = 2 powi (b + 1)"
    by (simp only: powi_split mult.commute)
qed

lemma fl_pos:
  "0 < x \<Longrightarrow>
     fl p x = of_int (round_half_even (x / 2 powi (binade x - (int p - 1))))
              * 2 powi (binade x - (int p - 1))"
  by (simp add: fl_def Let_def)

lemma significand_range:
  assumes "0 < x" and "0 < p"
  shows "2 ^ (p - 1) \<le> x / 2 powi (binade x - (int p - 1))"
    and "x / 2 powi (binade x - (int p - 1)) < 2 ^ p"
proof -
  let ?e = "binade x - (int p - 1)"
  have pos: "(0 :: rat) < 2 powi ?e" by simp
  have "2 ^ (p - 1) * 2 powi ?e \<le> x"
    using binade_bounds(1) [OF assms(1)] powi_split_pred(1) [OF assms(2), of "binade x"]
    by (simp only: mult.commute)
  then show "2 ^ (p - 1) \<le> x / 2 powi ?e"
    using pos by (simp only: pos_le_divide_eq)
  have "x < 2 ^ p * 2 powi ?e"
    using binade_bounds(2) [OF assms(1)] powi_split_pred(2) [OF assms(2), of "binade x"]
    by (simp only: mult.commute)
  then show "x / 2 powi ?e < 2 ^ p"
    using pos by (simp only: pos_divide_less_eq)
qed

lemma fl_error:
  assumes "0 < x"
  shows "\<bar>fl p x - x\<bar> \<le> 2 powi (binade x - int p)"
proof -
  let ?e = "binade x - (int p - 1)"
  let ?y = "x / 2 powi ?e"
  have pos: "(0 :: rat) < 2 powi ?e" by simp
  have "fl p x - x = (of_int (round_half_even ?y) - ?y) * 2 powi ?e"
    using assms by (simp add: fl_pos algebra_simps)
  then have "\<bar>fl p x - x\<bar> = \<bar>of_int (round_half_even ?y) - ?y\<bar> * 2 powi ?e"
    using pos by (simp add: abs_mult)
  also have "\<dots> \<le> 1 / 2 * 2 powi ?e"
    using round_half_even_error [of ?y] pos by (simp only: mult_le_cancel_right_pos)
  also have "\<dots> = 2 powi (binade x - int p)"
  proof -
    have "?e = 1 + (binade x - int p)" by simp
    then have "(2 :: rat) powi ?e = 2 powi (1 + (binade x - int p))" by (simp only:)
    also have "\<dots> = 2 * 2 powi (binade x - int p)"
      using powi_split [of 1 "binade x - int p"] by simp
    finally show ?thesis by simp
  qed
  finally show ?thesis .
qed

lemma significand_rounded:
  assumes "0 < x" and "0 < p"
  shows "2 ^ (p - 1) \<le> round_half_even (x / 2 powi (binade x - (int p - 1)))"
    and "round_half_even (x / 2 powi (binade x - (int p - 1))) \<le> 2 ^ p"
proof -
  let ?y = "x / 2 powi (binade x - (int p - 1))"
  from significand_range [OF assms]
  have lo: "rat_of_int (2 ^ (p - 1)) \<le> ?y" and hi: "?y \<le> rat_of_int (2 ^ p)"
    by simp_all
  from round_half_even_mono [OF lo] show "2 ^ (p - 1) \<le> round_half_even ?y"
    by (simp only: round_half_even_of_int)
  from round_half_even_mono [OF hi] show "round_half_even ?y \<le> 2 ^ p"
    by (simp only: round_half_even_of_int)
qed

lemma fl_range:
  assumes "0 < x" and "0 < p"
  shows "2 powi binade x \<le> fl p x" and "fl p x \<le> 2 powi (binade x + 1)"
proof -
  let ?e = "binade x - (int p - 1)"
  let ?y = "x / 2 powi ?e"
  have pos: "(0 :: rat) < 2 powi ?e" by simp
  from significand_rounded [OF assms]
  have lo: "rat_of_int (2 ^ (p - 1)) \<le> of_int (round_half_even ?y)"
    and hi: "rat_of_int (round_half_even ?y) \<le> of_int (2 ^ p)"
    by (simp_all only: of_int_le_iff)
  have flx: "fl p x = rat_of_int (round_half_even ?y) * 2 powi ?e"
    using assms(1) by (simp add: fl_pos)
  have "(2 :: rat) powi binade x = rat_of_int (2 ^ (p - 1)) * 2 powi ?e"
    using powi_split_pred(1) [OF assms(2), of "binade x"] by (simp add: mult.commute)
  also have "\<dots> \<le> rat_of_int (round_half_even ?y) * 2 powi ?e"
    using lo pos by (simp only: mult_le_cancel_right_pos)
  finally show "2 powi binade x \<le> fl p x"
    by (simp only: flx)
  have "rat_of_int (round_half_even ?y) * 2 powi ?e \<le> rat_of_int (2 ^ p) * 2 powi ?e"
    using hi pos by (simp only: mult_le_cancel_right_pos)
  also have "\<dots> = 2 powi (binade x + 1)"
    using powi_split_pred(2) [OF assms(2), of "binade x"] by (simp add: mult.commute)
  finally show "fl p x \<le> 2 powi (binade x + 1)"
    by (simp only: flx)
qed

lemma fl_nonneg:
  assumes "0 \<le> x" and "0 < p"
  shows "0 \<le> fl p x"
proof (cases "x = 0")
  case True
  then show ?thesis by (simp add: fl_def)
next
  case False
  with assms have "0 < x" by simp
  from fl_range(1) [OF this assms(2)] show ?thesis
    using zero_less_power_int [of "2 :: rat" "binade x"] by linarith
qed

lemma fl_mono:
  assumes "0 \<le> x" and "x \<le> y" and "0 < p"
  shows "fl p x \<le> fl p y"
proof (cases "x = 0")
  case True
  with assms show ?thesis
    using fl_nonneg [of y p] by (simp add: fl_def)
next
  case False
  with assms have x: "0 < x" and y: "0 < y" by simp_all
  from binade_mono [OF x assms(2)] consider "binade x = binade y" | "binade x < binade y"
    by linarith
  then show ?thesis
  proof cases
    case 1
    let ?e = "binade y - (int p - 1)"
    have pos: "(0 :: rat) < 2 powi ?e" by simp
    with assms(2) have "x / 2 powi ?e \<le> y / 2 powi ?e"
      by (simp add: divide_right_mono)
    then have "rat_of_int (round_half_even (x / 2 powi ?e))
               \<le> rat_of_int (round_half_even (y / 2 powi ?e))"
      by (simp only: of_int_le_iff round_half_even_mono)
    with pos have "rat_of_int (round_half_even (x / 2 powi ?e)) * 2 powi ?e
               \<le> rat_of_int (round_half_even (y / 2 powi ?e)) * 2 powi ?e"
      by (simp only: mult_le_cancel_right_pos)
    moreover have "fl p x = rat_of_int (round_half_even (x / 2 powi ?e)) * 2 powi ?e"
      using x 1 by (simp add: fl_pos)
    moreover have "fl p y = rat_of_int (round_half_even (y / 2 powi ?e)) * 2 powi ?e"
      using y by (simp add: fl_pos)
    ultimately show ?thesis
      by (simp only:)
  next
    case 2
    then have "(2 :: rat) powi (binade x + 1) \<le> 2 powi binade y"
      by (simp add: two_powi_le_iff)
    with fl_range(2) [OF x assms(3)] fl_range(1) [OF y assms(3)] show ?thesis
      by linarith
  qed
qed

lemma fl_fixed:
  assumes "0 < p" and "2 ^ (p - 1) \<le> m" and "m < 2 ^ p"
  shows "fl p (of_int m * 2 powi e) = of_int m * 2 powi e"
proof -
  let ?z = "rat_of_int m * 2 powi e"
  let ?b = "e + (int p - 1)"
  have e: "?b - (int p - 1) = e" by simp
  have pos: "(0 :: rat) < 2 powi e" by simp
  from assms(2) have "rat_of_int (2 ^ (p - 1)) \<le> of_int m"
    by (simp only: of_int_le_iff)
  then have m_lo: "(2 :: rat) ^ (p - 1) \<le> of_int m"
    by simp
  from assms(3) have "rat_of_int m < of_int (2 ^ p)"
    by (simp only: of_int_less_iff)
  then have m_hi: "rat_of_int m < 2 ^ p"
    by simp
  have "(2 :: rat) powi ?b = 2 powi e * 2 ^ (p - 1)"
    using powi_split_pred(1) [OF assms(1), of ?b] by (simp only: e)
  also have "\<dots> \<le> 2 powi e * of_int m"
    using m_lo pos by (simp only: mult_le_cancel_left_pos)
  finally have lo: "2 powi ?b \<le> ?z"
    by (simp only: mult.commute)
  have "2 powi e * rat_of_int m < 2 powi e * 2 ^ p"
    using m_hi pos by (simp only: mult_less_cancel_left_pos)
  also have "\<dots> = 2 powi (?b + 1)"
    using powi_split_pred(2) [OF assms(1), of ?b] by (simp only: e)
  finally have hi: "?z < 2 powi (?b + 1)"
    by (simp only: mult.commute)
  have b: "binade ?z = ?b"
    by (rule binade_unique [OF lo hi])
  have "(0 :: rat) < 2 powi ?b" by simp
  with lo have z: "0 < ?z" by linarith
  have "fl p ?z = rat_of_int (round_half_even (?z / 2 powi e)) * 2 powi e"
    using z by (simp add: fl_pos b)
  also have "?z / 2 powi e = rat_of_int m"
    by simp
  finally show ?thesis
    by (simp only: round_half_even_of_int)
qed

lemma fl_idem:
  assumes "0 \<le> x" and "0 < p"
  shows "fl p (fl p x) = fl p x"
proof (cases "x = 0")
  case True
  then show ?thesis by (simp add: fl_def)
next
  case False
  with assms have x: "0 < x" by simp
  let ?e = "binade x - (int p - 1)"
  let ?y = "x / 2 powi ?e"
  define m where "m = round_half_even ?y"
  have flx: "fl p x = rat_of_int m * 2 powi ?e"
    using x by (simp add: fl_pos m_def)
  from significand_rounded [OF x assms(2)]
  have lo: "2 ^ (p - 1) \<le> m" and hi: "m \<le> 2 ^ p"
    by (simp_all only: m_def)
  show ?thesis
  proof (cases "m = 2 ^ p")
    case False
    with hi have "m < 2 ^ p" by simp
    from fl_fixed [OF assms(2) lo this] show ?thesis
      by (simp only: flx)
  next
    case True
    have "(2 :: int) ^ (p - 1) < 2 ^ p"
      using assms(2) by simp
    from fl_fixed [OF assms(2) order_refl this, of "?e + 1"]
    have fixed: "fl p (rat_of_int (2 ^ (p - 1)) * 2 powi (?e + 1))
          = rat_of_int (2 ^ (p - 1)) * 2 powi (?e + 1)" .
    have "rat_of_int (2 ^ (p - 1)) * 2 powi (?e + 1) = rat_of_int m * 2 powi ?e"
    proof -
      have "(2 :: rat) ^ (p - 1) * 2 = 2 ^ p"
        using assms(2) by (cases p) simp_all
      moreover have "(2 :: rat) powi (?e + 1) = 2 * 2 powi ?e"
        by (rule two_powi_Suc)
      ultimately show ?thesis
        by (simp add: True)
    qed
    with fixed show ?thesis
      by (simp only: flx)
  qed
qed

section \<open>The PWM mapper\<close>

text \<open>
  The quotient by 200 is rounded, and so is its product with 1000. Whether the product
  comes out at the integer \<open>5 * h\<close> or just below it, where truncation would lose one
  unit, depends on the operand; the 201 operands that pass the clamp are evaluated, in
  four ranges.
\<close>

lemma scaled_0_50:
  "\<forall>h \<in> set (0 # 1 # [2..50]).
     to_int (double (double (single (of_int h) / MAX_HR_LIMIT) * of_int TIMER_RELOAD_VAL)) = 5 * h"
proof -
  define ok where
    "ok h \<longleftrightarrow>
       to_int (double (double (single (of_int h) / MAX_HR_LIMIT) * of_int TIMER_RELOAD_VAL)) = 5 * h"
    for h
  have "\<forall>h \<in> set (0 # 1 # [2..50]). ok h"
    apply (simp del: set_upto)
    apply (simp add: ok_def MAX_HR_LIMIT_def TIMER_RELOAD_VAL_def fp_eval split del: if_split)
    done
  then show ?thesis by (simp only: ok_def)
qed

lemma scaled_51_100:
  "\<forall>h \<in> set [51..100].
     to_int (double (double (single (of_int h) / MAX_HR_LIMIT) * of_int TIMER_RELOAD_VAL)) = 5 * h"
proof -
  define ok where
    "ok h \<longleftrightarrow>
       to_int (double (double (single (of_int h) / MAX_HR_LIMIT) * of_int TIMER_RELOAD_VAL)) = 5 * h"
    for h
  have "\<forall>h \<in> set [51..100]. ok h"
    apply (simp del: set_upto)
    apply (simp add: ok_def MAX_HR_LIMIT_def TIMER_RELOAD_VAL_def fp_eval split del: if_split)
    done
  then show ?thesis by (simp only: ok_def)
qed

lemma scaled_101_150:
  "\<forall>h \<in> set [101..150].
     to_int (double (double (single (of_int h) / MAX_HR_LIMIT) * of_int TIMER_RELOAD_VAL)) = 5 * h"
proof -
  define ok where
    "ok h \<longleftrightarrow>
       to_int (double (double (single (of_int h) / MAX_HR_LIMIT) * of_int TIMER_RELOAD_VAL)) = 5 * h"
    for h
  have "\<forall>h \<in> set [101..150]. ok h"
    apply (simp del: set_upto)
    apply (simp add: ok_def MAX_HR_LIMIT_def TIMER_RELOAD_VAL_def fp_eval split del: if_split)
    done
  then show ?thesis by (simp only: ok_def)
qed

lemma scaled_151_200:
  "\<forall>h \<in> set [151..200].
     to_int (double (double (single (of_int h) / MAX_HR_LIMIT) * of_int TIMER_RELOAD_VAL)) = 5 * h"
proof -
  define ok where
    "ok h \<longleftrightarrow>
       to_int (double (double (single (of_int h) / MAX_HR_LIMIT) * of_int TIMER_RELOAD_VAL)) = 5 * h"
    for h
  have "\<forall>h \<in> set [151..200]. ok h"
    apply (simp del: set_upto)
    apply (simp add: ok_def MAX_HR_LIMIT_def TIMER_RELOAD_VAL_def fp_eval split del: if_split)
    done
  then show ?thesis by (simp only: ok_def)
qed

lemma scaled_eq:
  assumes "0 \<le> h" and "h \<le> 200"
  shows "to_int (double (double (single (of_int h) / MAX_HR_LIMIT) * of_int TIMER_RELOAD_VAL))
         = 5 * h"
proof -
  from assms have
    "h \<in> set (0 # 1 # [2..50]) \<or> h \<in> set [51..100] \<or> h \<in> set [101..150]
     \<or> h \<in> set [151..200]"
    by (auto simp del: upto_rec_numeral)
  with scaled_0_50 scaled_51_100 scaled_101_150 scaled_151_200 show ?thesis
    by blast
qed

lemma compute_pwm_register_eq: "compute_pwm_register h = 5 * max 0 (min 200 h)"
proof -
  have limit: "to_int MAX_HR_LIMIT = 200"
    by (simp add: to_int_def MAX_HR_LIMIT_def)
  consider "200 < h" | "h < 0" | "0 \<le> h" "h \<le> 200"
    by linarith
  then show ?thesis
  proof cases
    case 1
    then show ?thesis
      using scaled_eq [of 200] by (simp add: compute_pwm_register_def limit Let_def)
  next
    case 2
    then show ?thesis
      using scaled_eq [of 0] by (simp add: compute_pwm_register_def limit Let_def)
  next
    case 3
    then show ?thesis
      using scaled_eq [of h] by (simp add: compute_pwm_register_def limit Let_def)
  qed
qed

text \<open>
  Claim C1. For every integer heart rate \<open>h\<close>, \<open>compute_pwm_register\<close> returns the
  real quotient of the clamped input by 200, times 1000, rounded down, a value from 0
  to 1000; it returns 1000 for every \<open>h\<close> of at least 200, 0 for every \<open>h\<close> of at most
  0, and 500 for 100. The function is total: none of its operations can fail.
\<close>

theorem compute_pwm_register_contract:
  "compute_pwm_register h = \<lfloor>rat_of_int (max 0 (min 200 h)) / 200 * 1000\<rfloor>
   \<and> 0 \<le> compute_pwm_register h \<and> compute_pwm_register h \<le> 1000
   \<and> (200 \<le> h \<longrightarrow> compute_pwm_register h = 1000)
   \<and> (h \<le> 0 \<longrightarrow> compute_pwm_register h = 0)
   \<and> compute_pwm_register 100 = 500"
proof -
  have "rat_of_int (max 0 (min 200 h)) / 200 * 1000 = rat_of_int (5 * max 0 (min 200 h))"
    by simp
  then have "\<lfloor>rat_of_int (max 0 (min 200 h)) / 200 * 1000\<rfloor> = 5 * max 0 (min 200 h)"
    by (simp only: floor_of_int)
  then show ?thesis
    by (simp add: compute_pwm_register_eq)
qed

theorem compute_pwm_register_contract_witness:
  "(200 :: int) \<le> 250 \<and> compute_pwm_register 250 = 1000
   \<and> (- 7 :: int) \<le> 0 \<and> compute_pwm_register (- 7) = 0
   \<and> compute_pwm_register 137 = \<lfloor>rat_of_int 137 / 200 * 1000\<rfloor>"
  using compute_pwm_register_contract [of 250] compute_pwm_register_contract [of "- 7"]
    compute_pwm_register_contract [of 137]
  by simp

text \<open>
  Claim C9. For every integer \<open>h\<close>, \<open>compute_pwm_register h\<close> is exactly five times
  the clamped input: the two roundings of the floating-point computation lose nothing
  on this range. So the result is a multiple of 5, and the mapper is monotone.
\<close>

theorem compute_pwm_register_linear:
  "compute_pwm_register h = 5 * max 0 (min 200 h)
   \<and> 5 dvd compute_pwm_register h
   \<and> (h \<le> h' \<longrightarrow> compute_pwm_register h \<le> compute_pwm_register h')"
  by (auto simp: compute_pwm_register_eq max_def min_def)

theorem compute_pwm_register_linear_witness:
  "compute_pwm_register 37 = 185 \<and> 5 dvd compute_pwm_register 37
   \<and> (37 :: int) \<le> 120 \<and> compute_pwm_register 37 \<le> compute_pwm_register 120"
  using compute_pwm_register_linear [of 37 120] compute_pwm_register_linear [of 120 120]
  by simp

section \<open>The alarm evaluator\<close>

text \<open>
  Claim C2. \<open>evaluate_alarm_condition\<close> is defined for every integer SpO2 value and
  takes the first matching case of: 0 gives mask 0xFFFF and "SENSOR ERROR"; below 90
  gives 0xAAAA and "CRITICAL: Odd Pins ON"; below 95 gives 0x5555 and
  "WARNING: Even Pins ON"; anything else gives 0x0000 and "NORMAL".
\<close>

theorem evaluate_alarm_condition_cases:
  "evaluate_alarm_condition s =
     (if s = 0 then (0xFFFF, ''SENSOR ERROR'')
      else if s < 90 then (0xAAAA, ''CRITICAL: Odd Pins ON'')
      else if s < 95 then (0x5555, ''WARNING: Even Pins ON'')
      else (0x0000, ''NORMAL''))"
  by (simp add: evaluate_alarm_condition_def STATUS_FAILURE_def STATUS_CRITICAL_def
      STATUS_WARNING_def STATUS_NORMAL_def)

theorem evaluate_alarm_condition_cases_witness:
  "evaluate_alarm_condition 0 = (0xFFFF, ''SENSOR ERROR'')
   \<and> evaluate_alarm_condition 85 = (0xAAAA, ''CRITICAL: Odd Pins ON'')
   \<and> evaluate_alarm_condition 92 = (0x5555, ''WARNING: Even Pins ON'')
   \<and> evaluate_alarm_condition 98 = (0x0000, ''NORMAL'')
   \<and> evaluate_alarm_condition (- 4) = (0xAAAA, ''CRITICAL: Odd Pins ON'')"
  using evaluate_alarm_condition_cases [of 0] evaluate_alarm_condition_cases [of 85]
    evaluate_alarm_condition_cases [of 92] evaluate_alarm_condition_cases [of 98]
    evaluate_alarm_condition_cases [of "- 4"]
  by simp

text \<open>
  Claim C10. Every call of \<open>evaluate_alarm_condition\<close> returns one of four masks and
  one of four labels, and they go together: 0xFFFF with "SENSOR ERROR", 0xAAAA with
  "CRITICAL: Odd Pins ON", 0x5555 with "WARNING: Even Pins ON", 0x0000 with "NORMAL",
  each mask with no other label and each label with no other mask.
\<close>

theorem evaluate_alarm_condition_pairing:
  "fst (evaluate_alarm_condition s) \<in> {0xFFFF, 0xAAAA, 0x5555, 0x0000}
   \<and> snd (evaluate_alarm_condition s) \<in>
         {''SENSOR ERROR'', ''CRITICAL: Odd Pins ON'', ''WARNING: Even Pins ON'', ''NORMAL''}
   \<and> (fst (evaluate_alarm_condition s) = 0xFFFF
          \<longleftrightarrow> snd (evaluate_alarm_condition s) = ''SENSOR ERROR'')
   \<and> (fst (evaluate_alarm_condition s) = 0xAAAA
          \<longleftrightarrow> snd (evaluate_alarm_condition s) = ''CRITICAL: Odd Pins ON'')
   \<and> (fst (evaluate_alarm_condition s) = 0x5555
          \<longleftrightarrow> snd (evaluate_alarm_condition s) = ''WARNING: Even Pins ON'')
   \<and> (fst (evaluate_alarm_condition s) = 0x0000
          \<longleftrightarrow> snd (evaluate_alarm_condition s) = ''NORMAL'')"
  by (simp add: evaluate_alarm_condition_def STATUS_FAILURE_def STATUS_CRITICAL_def
      STATUS_WARNING_def STATUS_NORMAL_def)

theorem evaluate_alarm_condition_pairing_witness:
  "fst (evaluate_alarm_condition 92) = 0x5555
   \<and> snd (evaluate_alarm_condition 92) = ''WARNING: Even Pins ON''
   \<and> fst (evaluate_alarm_condition 92) \<noteq> 0xAAAA"
  using evaluate_alarm_condition_pairing [of 92]
  by (simp add: evaluate_alarm_condition_def STATUS_WARNING_def)

section \<open>The read loop\<close>

lemma read_loop_stop: "fscanf_d_d s = None \<Longrightarrow> read_loop v s = v"
  by (simp add: read_loop.simps [of v s])

lemma read_loop_step:
  "fscanf_d_d s = Some (r, rest) \<Longrightarrow> read_loop v s = read_loop (loop_body v r) rest"
  by (simp add: read_loop.simps [of v s])

lemma scan_int_skip: "isspace c \<Longrightarrow> scan_int (c # s) = scan_int s"
  by (simp add: scan_int_def)

lemma fscanf_d_d_skip: "isspace c \<Longrightarrow> fscanf_d_d (c # s) = fscanf_d_d s"
  by (simp add: fscanf_d_d_def scan_int_skip)

lemma read_loop_skip: "isspace c \<Longrightarrow> read_loop v (c # s) = read_loop v s"
  by (simp add: read_loop.simps [of v "c # s"] read_loop.simps [of v s] fscanf_d_d_skip)

lemma out_read_loop: "\<exists>blocks. out (read_loop v s) = out v @ blocks"
proof (induction v s rule: read_loop.induct)
  case (1 v s)
  show ?case
  proof (cases "fscanf_d_d s")
    case None
    then show ?thesis by (simp add: read_loop_stop)
  next
    case (Some x)
    obtain r rest where x: "x = (r, rest)" by (cases x)
    from "1.IH" [OF Some x [symmetric]] obtain blocks
      where "out (read_loop (loop_body v r) rest) = out (loop_body v r) @ blocks" ..
    moreover have "\<exists>b. out (loop_body v r) = out v @ b"
      by (simp add: loop_body_def Let_def split: prod.splits)
    ultimately show ?thesis
      using Some x by (auto simp: read_loop_step)
  qed
qed

section \<open>Decimal notation\<close>

lemma digit_cases:
  fixes d :: nat
  assumes "d < 10"
  shows "d \<in> {0, 1, 2, 3, 4, 5, 6, 7, 8, 9}"
  using assms by auto

lemma isdigit_digit_char: "d < 10 \<Longrightarrow> isdigit (digit_char d)"
  unfolding isdigit_def digit_char_def by (rule nth_mem) simp

lemma digit_val_digit_char: "d < 10 \<Longrightarrow> digit_val (digit_char d) = int d"
  by (drule digit_cases) (auto simp: digit_val_def digit_char_def)

lemma isdigit_plain: "isdigit c \<Longrightarrow> \<not> isspace c \<and> c \<noteq> CHR ''-'' \<and> c \<noteq> CHR ''+'' \<and> c \<noteq> CHR '',''"
  by (auto simp: isdigit_def isspace_def)

lemma dec_digits_isdigit: "c \<in> set (dec_digits n) \<Longrightarrow> isdigit c"
  by (induction n arbitrary: c rule: dec_digits.induct)
    (subst (asm) dec_digits.simps, auto simp: isdigit_digit_char split: if_splits)

lemma dec_digits_nonempty: "dec_digits n \<noteq> []"
  by (subst dec_digits.simps) simp

lemma digits_val_snoc: "digits_val (ds @ [c]) = 10 * digits_val ds + digit_val c"
  by (simp add: digits_val_def)

lemma digits_val_dec_digits: "digits_val (dec_digits n) = int n"
proof (induction n rule: dec_digits.induct)
  case (1 n)
  show ?case
  proof (cases "n < 10")
    case True
    then show ?thesis
      by (subst dec_digits.simps) (simp add: digits_val_def digit_val_digit_char)
  next
    case False
    with "1.IH" have "digits_val (dec_digits (n div 10)) = int (n div 10)" by simp
    with False have "digits_val (dec_digits n) = 10 * int (n div 10) + int (n mod 10)"
      by (subst dec_digits.simps) (simp add: digits_val_snoc digit_val_digit_char)
    also have "\<dots> = int n"
      by presburger
    finally show ?thesis .
  qed
qed

lemma span_dec_digits:
  assumes "\<not> isdigit c"
  shows "takeWhile isdigit (dec_digits n @ c # s) = dec_digits n"
    and "dropWhile isdigit (dec_digits n @ c # s) = c # s"
  using assms by (simp_all add: dec_digits_isdigit)

lemma dec_digits_head: "\<exists>c t. dec_digits n = c # t \<and> isdigit c"
  using dec_digits_nonempty [of n] dec_digits_isdigit [of _ n]
  by (cases "dec_digits n") auto

lemma scan_int_dec:
  assumes "\<not> isdigit c"
  shows "scan_int (dec i @ c # s) = Some (i, c # s)"
proof (cases "i < 0")
  case True
  have "\<not> isspace CHR ''-''" by (simp add: isspace_def)
  with True assms show ?thesis
    by (simp add: scan_int_def dec_def scan_sign_def span_dec_digits dec_digits_nonempty
        digits_val_dec_digits)
next
  case False
  obtain d t where dt: "dec_digits (nat i) = d # t" and d: "isdigit d"
    using dec_digits_head by blast
  from d have plain: "\<not> isspace d" "d \<noteq> CHR ''-''" "d \<noteq> CHR ''+''"
    by (simp_all add: isdigit_plain)
  have sign: "scan_sign (dropWhile isspace (dec_digits (nat i) @ c # s)) = (False, dec_digits (nat i) @ c # s)"
    using plain by (simp add: dt scan_sign_def)
  from False assms show ?thesis
    by (simp add: scan_int_def dec_def sign span_dec_digits dec_digits_nonempty
        digits_val_dec_digits)
qed

lemma fscanf_d_d_csv_line: "fscanf_d_d (csv_line r @ s) = Some (r, CHR 0x0A # s)"
proof -
  have comma: "\<not> isdigit CHR '',''" and nl: "\<not> isdigit CHR 0x0A"
    by (simp_all add: isdigit_def)
  have "scan_int (dec (fst r) @ CHR '','' # dec (snd r) @ CHR 0x0A # s)
        = Some (fst r, CHR '','' # dec (snd r) @ CHR 0x0A # s)"
    by (rule scan_int_dec [OF comma])
  moreover have "scan_int (dec (snd r) @ CHR 0x0A # s) = Some (snd r, CHR 0x0A # s)"
    by (rule scan_int_dec [OF nl])
  ultimately show ?thesis
    by (simp add: fscanf_d_d_def csv_line_def)
qed

lemma read_loop_csv_line: "read_loop v (csv_line r @ s) = read_loop (loop_body v r) s"
proof -
  have "isspace CHR 0x0A" by (simp add: isspace_def)
  then show ?thesis
    by (simp add: read_loop_step [OF fscanf_d_d_csv_line] read_loop_skip)
qed

lemma read_loop_csv_text: "read_loop v (csv_text rs @ s) = read_loop (foldl loop_body v rs) s"
  by (induction rs arbitrary: v) (simp_all add: csv_text_def read_loop_csv_line)

lemma read_loop_csv_text_stop:
  "fscanf_d_d bad = None \<Longrightarrow> read_loop v (csv_text rs @ bad) = foldl loop_body v rs"
  by (simp add: read_loop_csv_text read_loop_stop)

section \<open>The loop body over a sequence of records\<close>

lemma smod_1000_dvd: "k smod 1000 = 0 \<longleftrightarrow> 1000 dvd k" for k :: int
  by (auto simp: signed_modulo_int_def sgn_if)

lemma loop_body_fields:
  "sys_time_sec (loop_body v r) = advance_clock (sys_time_sec v)"
  "packet_counter (loop_body v r) = packet_counter v + 1"
  by (simp_all add: loop_body_def Let_def split: prod.splits)

lemma loop_body_out:
  "out (loop_body v r) =
     out v @ (if packet_counter v + 1 = 1 \<or> 1000 dvd (packet_counter v + 1)
                 \<or> fst (evaluate_alarm_condition (snd r)) \<noteq> 0x0000
              then status_block (sys_time_sec v) (fst r) (snd r) (compute_pwm_register (fst r))
                     (fst (evaluate_alarm_condition (snd r)))
                     (snd (evaluate_alarm_condition (snd r)))
              else [])"
  by (simp add: loop_body_def Let_def smod_1000_dvd STATUS_NORMAL_def split: prod.splits)

lemma run_records:
  "foldl loop_body loop_entry rs =
     \<lparr> sys_time_sec = clock_after (length rs),
       packet_counter = int (length rs),
       out = start_banner
             @ concat (map (\<lambda>(n, r). if displayed n r then record_block n r else [])
                         (enumerate 1 rs)) \<rparr>"
proof (induction rs rule: rev_induct)
  case Nil
  show ?case by (simp add: loop_entry_def clock_after_def)
next
  case (snoc r rs)
  have dvd: "(1000 :: int) dvd 1 + int (length rs) \<longleftrightarrow> (1000 :: nat) dvd Suc (length rs)"
    by presburger
  have "foldl loop_body loop_entry (rs @ [r]) = loop_body (foldl loop_body loop_entry rs) r"
    by simp
  also have "\<dots> = \<lparr> sys_time_sec = clock_after (length (rs @ [r])),
       packet_counter = int (length (rs @ [r])),
       out = start_banner
             @ concat (map (\<lambda>(n, r). if displayed n r then record_block n r else [])
                         (enumerate 1 (rs @ [r]))) \<rparr>"
    unfolding snoc.IH
    apply (rule vars.equality)
    apply (simp_all add: loop_body_fields loop_body_out clock_after_def enumerate_append_eq
        displayed_def record_block_def dvd add.commute)
    done
  finally show ?case .
qed

section \<open>The program as a whole\<close>

lemma main_missing:
  "files w SOURCE_FILE = None \<Longrightarrow>
     main w = \<lparr> exit_code = 1, stdout = missing_file_report, stdin_rest = stdin w \<rparr>"
  by (simp add: main_def)

lemma main_opened:
  "files w SOURCE_FILE = Some s \<Longrightarrow>
     main w = \<lparr> exit_code = 0,
                stdout = out (read_loop loop_entry s) @ [completion_notice, exit_prompt],
                stdin_rest = drop 1 (stdin w) \<rparr>"
  by (simp add: main_def Let_def)

lemma stdout_csv:
  assumes "files w SOURCE_FILE = Some (csv_text rs @ bad)" and "fscanf_d_d bad = None"
  shows "stdout (main w) =
           start_banner
           @ concat (map (\<lambda>(n, r). if displayed n r then record_block n r else [])
                       (enumerate 1 rs))
           @ [completion_notice, exit_prompt]"
  using assms by (simp add: main_opened read_loop_csv_text_stop run_records)

lemma fscanf_d_d_Nil: "fscanf_d_d [] = None"
  by (simp add: fscanf_d_d_def scan_int_def scan_sign_def)

lemma concat_map_if:
  "concat (map (\<lambda>x. if P x then g x else []) xs) = concat (map g (filter P xs))"
  by (induction xs) simp_all

lemma marks_2500: "filter (\<lambda>n. n = 1 \<or> 1000 dvd n) [1..<2501] = [1, 1000, 2000]"
proof (rule sorted_distinct_set_unique)
  have multiples: "n = 1000 \<or> n = 2000" if "1 \<le> n" and "n < 2501" and "1000 dvd n"
    for n :: nat
  proof -
    from that(3) obtain k where k: "n = 1000 * k" ..
    with that(1,2) have "k = 1 \<or> k = 2"
      by linarith
    with k show ?thesis
      by auto
  qed
  show "set (filter (\<lambda>n. n = 1 \<or> 1000 dvd n) [1..<2501]) = set [1, 1000, 2000 :: nat]"
    by (auto simp del: upt_rec_numeral dest: multiples)
qed (simp_all add: sorted_wrt_filter del: upt_rec_numeral)

lemma normal_80_97: "displayed n (80, 97) \<longleftrightarrow> n = 1 \<or> 1000 dvd n"
  by (simp add: displayed_def evaluate_alarm_condition_def STATUS_NORMAL_def)

lemma blocks_2500:
  "concat (map (\<lambda>(n, r). if displayed n r then record_block n r else [])
             (enumerate 1 (replicate 2500 (80, 97))))
   = record_block 1 (80, 97) @ record_block 1000 (80, 97) @ record_block 2000 (80, 97)"
proof -
  have "concat (map (\<lambda>(n, r). if displayed n r then record_block n r else [])
             (enumerate 1 (replicate 2500 (80, 97))))
        = concat (map (\<lambda>n. if n = 1 \<or> 1000 dvd n then record_block n (80, 97) else [])
             [1..<2501])"
    by (simp add: enumerate_replicate_eq comp_def normal_80_97 del: upt_rec_numeral)
  also have "\<dots> = concat (map (\<lambda>n. record_block n (80, 97)) [1, 1000, 2000])"
    by (simp only: concat_map_if marks_2500)
  finally show ?thesis by simp
qed

lemmas scan_eval =
  fscanf_d_d_def scan_int_def scan_sign_def isspace_def isdigit_def digits_val_def digit_val_def

lemma record_block_80_97:
  "record_block n (80, 97) = status_block (clock_after (n - 1)) 80 97 400 0x0000 ''NORMAL''"
  by (simp add: record_block_def compute_pwm_register_eq evaluate_alarm_condition_def
      STATUS_NORMAL_def)

text \<open>
  Claim C3. The status block is the four lines that the display branch prints: the time,
  heart rate and SpO2; the register value and the duty percentage; the mask and its
  label; the separator. In a pass of the loop body it is printed exactly when the
  counter, just incremented, is 1 or a multiple of 1000, or the alarm mask of the record
  is not 0x0000; otherwise the pass prints nothing. So the output for a file of
  well-formed lines consists of the blocks of the records that the display rule selects,
  in order, between the banner and the closing lines; and for 2500 lines \<open>80,97\<close> these
  are the blocks of records 1, 1000 and 2000, each with register value 400, mask 0x0000
  and the label "NORMAL". The numbers of the records and the counter are those that fit
  the program's \<open>int\<close> variables.
\<close>

theorem display_filter:
  "status_block t hr spo2 ccr odr desc =
     [(''Time: %.3f s | BPM: %d | SpO2: %d\<newline>'', [Arg_double t, Arg_int hr, Arg_int spo2]),
      (''  -> [PWM] Calculated CCR Value: %d (Duty: %.1f%%)\<newline>'',
         [Arg_int ccr, Arg_double (single (double (single (of_int ccr) / 10)))]),
      (''  -> [GPIO] Port D ODR Value: 0x%04X (%s)\<newline>'', [Arg_uint odr, Arg_str desc]),
      (''--------------------------------------------------------------\<newline>'', [])]
   \<and> (int_range (packet_counter v + 1) \<and> int_range (fst r) \<and> int_range (snd r) \<longrightarrow>
        out (loop_body v r) =
          out v @ (if packet_counter v + 1 = 1 \<or> 1000 dvd (packet_counter v + 1)
                      \<or> fst (evaluate_alarm_condition (snd r)) \<noteq> 0x0000
                   then status_block (sys_time_sec v) (fst r) (snd r)
                          (compute_pwm_register (fst r))
                          (fst (evaluate_alarm_condition (snd r)))
                          (snd (evaluate_alarm_condition (snd r)))
                   else []))
   \<and> (int_records rs \<and> files w SOURCE_FILE = Some (csv_text rs) \<longrightarrow>
        stdout (main w) =
          start_banner
          @ concat (map (\<lambda>(n, r). if displayed n r then record_block n r else [])
                      (enumerate 1 rs))
          @ [completion_notice, exit_prompt])
   \<and> (files w SOURCE_FILE = Some (csv_text (replicate 2500 (80, 97))) \<longrightarrow>
        stdout (main w) =
          start_banner
          @ status_block (clock_after 0) 80 97 400 0x0000 ''NORMAL''
          @ status_block (clock_after 999) 80 97 400 0x0000 ''NORMAL''
          @ status_block (clock_after 1999) 80 97 400 0x0000 ''NORMAL''
          @ [completion_notice, exit_prompt])"
proof (intro conjI impI)
  show "status_block t hr spo2 ccr odr desc =
     [(''Time: %.3f s | BPM: %d | SpO2: %d\<newline>'', [Arg_double t, Arg_int hr, Arg_int spo2]),
      (''  -> [PWM] Calculated CCR Value: %d (Duty: %.1f%%)\<newline>'',
         [Arg_int ccr, Arg_double (single (double (single (of_int ccr) / 10)))]),
      (''  -> [GPIO] Port D ODR Value: 0x%04X (%s)\<newline>'', [Arg_uint odr, Arg_str desc]),
      (''--------------------------------------------------------------\<newline>'', [])]"
    by (simp add: status_block_def Let_def)
  show "out (loop_body v r) =
          out v @ (if packet_counter v + 1 = 1 \<or> 1000 dvd (packet_counter v + 1)
                      \<or> fst (evaluate_alarm_condition (snd r)) \<noteq> 0x0000
                   then status_block (sys_time_sec v) (fst r) (snd r)
                          (compute_pwm_register (fst r))
                          (fst (evaluate_alarm_condition (snd r)))
                          (snd (evaluate_alarm_condition (snd r)))
                   else [])"
    by (rule loop_body_out)
next
  assume "int_records rs \<and> files w SOURCE_FILE = Some (csv_text rs)"
  then have "files w SOURCE_FILE = Some (csv_text rs @ [])"
    by simp
  from stdout_csv [OF this fscanf_d_d_Nil]
  show "stdout (main w) =
          start_banner
          @ concat (map (\<lambda>(n, r). if displayed n r then record_block n r else [])
                      (enumerate 1 rs))
          @ [completion_notice, exit_prompt]" .
next
  assume "files w SOURCE_FILE = Some (csv_text (replicate 2500 (80, 97)))"
  then have "files w SOURCE_FILE = Some (csv_text (replicate 2500 (80, 97)) @ [])"
    by (simp only: append_Nil2)
  from stdout_csv [OF this fscanf_d_d_Nil]
  have "stdout (main w) =
          start_banner
          @ record_block 1 (80, 97) @ record_block 1000 (80, 97) @ record_block 2000 (80, 97)
          @ [completion_notice, exit_prompt]"
    by (simp only: blocks_2500 append_assoc)
  then show "stdout (main w) =
          start_banner
          @ status_block (clock_after 0) 80 97 400 0x0000 ''NORMAL''
          @ status_block (clock_after 999) 80 97 400 0x0000 ''NORMAL''
          @ status_block (clock_after 1999) 80 97 400 0x0000 ''NORMAL''
          @ [completion_notice, exit_prompt]"
    by (simp add: record_block_80_97)
qed

theorem display_filter_witness:
  "int_range (packet_counter loop_entry + 1) \<and> int_range 80 \<and> int_range 97
   \<and> out (loop_body loop_entry (80, 97))
       = start_banner @ status_block 0 80 97 400 0x0000 ''NORMAL''
   \<and> int_records (replicate 2500 (80, 97))
   \<and> files (only_file (csv_text (replicate 2500 (80, 97)))) SOURCE_FILE
       = Some (csv_text (replicate 2500 (80, 97)))
   \<and> stdout (main (only_file (csv_text (replicate 2500 (80, 97))))) =
          start_banner
          @ concat (map (\<lambda>(n, r). if displayed n r then record_block n r else [])
                      (enumerate 1 (replicate 2500 (80, 97))))
          @ [completion_notice, exit_prompt]
   \<and> stdout (main (only_file (csv_text (replicate 2500 (80, 97))))) =
          start_banner
          @ status_block (clock_after 0) 80 97 400 0x0000 ''NORMAL''
          @ status_block (clock_after 999) 80 97 400 0x0000 ''NORMAL''
          @ status_block (clock_after 1999) 80 97 400 0x0000 ''NORMAL''
          @ [completion_notice, exit_prompt]"
proof -
  have ranges: "int_range (packet_counter loop_entry + 1)" "int_range 80" "int_range 97"
    by (simp_all add: int_range_def loop_entry_def)
  have records: "int_records (replicate 2500 (80, 97))"
    by (simp add: int_records_def int_range_def list_all_iff)
  have opened: "files (only_file (csv_text (replicate 2500 (80, 97)))) SOURCE_FILE
       = Some (csv_text (replicate 2500 (80, 97)))"
    by (simp add: only_file_def)
  note rule = display_filter
    [where v = loop_entry and r = "(80, 97)" and rs = "replicate 2500 (80, 97)"
       and w = "only_file (csv_text (replicate 2500 (80, 97)))"]
  from rule ranges have "out (loop_body loop_entry (80, 97))
       = start_banner @ status_block 0 80 97 400 0x0000 ''NORMAL''"
    by (simp add: loop_entry_def compute_pwm_register_eq evaluate_alarm_condition_def
        STATUS_NORMAL_def)
  moreover from rule records opened
  have "stdout (main (only_file (csv_text (replicate 2500 (80, 97))))) =
          start_banner
          @ concat (map (\<lambda>(n, r). if displayed n r then record_block n r else [])
                      (enumerate 1 (replicate 2500 (80, 97))))
          @ [completion_notice, exit_prompt]"
    by blast
  moreover from rule opened
  have "stdout (main (only_file (csv_text (replicate 2500 (80, 97))))) =
          start_banner
          @ status_block (clock_after 0) 80 97 400 0x0000 ''NORMAL''
          @ status_block (clock_after 999) 80 97 400 0x0000 ''NORMAL''
          @ status_block (clock_after 1999) 80 97 400 0x0000 ''NORMAL''
          @ [completion_notice, exit_prompt]"
    by blast
  ultimately show ?thesis
    using ranges records opened by blast
qed

text \<open>
  Claim C4. If the input file cannot be opened, the program prints the diagnostic and
  nothing else, and exits with code 1. If it can be opened, the program reads it until
  \<open>fscanf\<close> delivers no further record, prints the completion notice after whatever blocks
  the records produced, and exits with code 0; a file without records is one case of it.
\<close>

theorem main_exit_codes:
  "(files w SOURCE_FILE = None \<longrightarrow>
      exit_code (main w) = 1 \<and> stdout (main w) = missing_file_report)
   \<and> (files w SOURCE_FILE = Some s \<longrightarrow>
        exit_code (main w) = 0
        \<and> (\<exists>blocks. stdout (main w)
                      = start_banner @ blocks @ [completion_notice, exit_prompt]))"
proof (intro conjI impI)
  assume "files w SOURCE_FILE = None"
  then show "exit_code (main w) = 1" and "stdout (main w) = missing_file_report"
    by (simp_all add: main_missing)
next
  assume opened: "files w SOURCE_FILE = Some s"
  then show "exit_code (main w) = 0"
    by (simp add: main_opened)
  from out_read_loop [of loop_entry s] obtain blocks
    where "out (read_loop loop_entry s) = start_banner @ blocks"
    by (auto simp: loop_entry_def)
  with opened show "\<exists>blocks. stdout (main w)
                      = start_banner @ blocks @ [completion_notice, exit_prompt]"
    by (simp add: main_opened)
qed

theorem main_exit_codes_witness:
  "files no_files SOURCE_FILE = None
   \<and> exit_code (main no_files) = 1
   \<and> stdout (main no_files) = missing_file_report
   \<and> files (only_file ''60,0'') SOURCE_FILE = Some ''60,0''
   \<and> exit_code (main (only_file ''60,0'')) = 0
   \<and> files (only_file []) SOURCE_FILE = Some []
   \<and> exit_code (main (only_file [])) = 0"
  using main_exit_codes [of no_files "[]"]
    main_exit_codes [of "only_file ''60,0''" "''60,0''"]
    main_exit_codes [of "only_file []" "[]"]
  by (simp add: only_file_def no_files_def)

lemma fscanf_d_d_fields:
  assumes "\<not> isdigit c"
  shows "fscanf_d_d (dec a @ '','' @ dec b @ c # s) = Some ((a, b), c # s)"
proof -
  have comma: "\<not> isdigit CHR '',''"
    by (simp add: isdigit_def)
  have "scan_int (dec a @ CHR '','' # dec b @ c # s) = Some (a, CHR '','' # dec b @ c # s)"
    by (rule scan_int_dec [OF comma])
  moreover have "scan_int (dec b @ c # s) = Some (b, c # s)"
    by (rule scan_int_dec [OF assms])
  ultimately show ?thesis
    by (simp add: fscanf_d_d_def)
qed

lemma stdout_only_file:
  "stdout (main (only_file (csv_text rs)))
   = out (foldl loop_body loop_entry rs) @ [completion_notice, exit_prompt]"
proof -
  have "files (only_file (csv_text rs)) SOURCE_FILE = Some (csv_text rs @ [])"
    by (simp add: only_file_def)
  then show ?thesis
    by (simp add: main_opened read_loop_csv_text_stop [OF fscanf_d_d_Nil] del: append_Nil2)
qed

text \<open>
  Claim C5, as the code has it. The loop reads with \<open>fscanf\<close>, which knows no lines.
  When the file has well-formed lines, of numbers that fit an \<open>int\<close>, and then text on which \<open>fscanf\<close> does not find an
  integer, a comma and an integer (white space, line ends included, being skipped before
  each integer), the loop ends there without a message, as at the end of the file: the
  records of the well-formed lines are processed, nothing after them is, the output is
  that of the file cut there, and the exit code is 0. When the text after the well-formed
  lines begins with two integers and a comma between them and goes on wrongly, as a line
  with a third field does, these two integers are processed as one more record before the
  loop ends in the same way.
\<close>

theorem malformed_input_ends_loop:
  "(int_records rs \<and> fscanf_d_d bad = None
      \<and> files w SOURCE_FILE = Some (csv_text rs @ bad) \<longrightarrow>
      exit_code (main w) = 0
      \<and> stdout (main w) =
          start_banner
          @ concat (map (\<lambda>(n, r). if displayed n r then record_block n r else [])
                      (enumerate 1 rs))
          @ [completion_notice, exit_prompt]
      \<and> stdout (main w) = stdout (main (only_file (csv_text rs))))
   \<and> (int_records (rs @ [(a, b)]) \<and> \<not> isdigit c \<and> fscanf_d_d (c # bad) = None
        \<and> files w SOURCE_FILE = Some (csv_text rs @ dec a @ '','' @ dec b @ c # bad) \<longrightarrow>
      exit_code (main w) = 0
      \<and> stdout (main w) =
          start_banner
          @ concat (map (\<lambda>(n, r). if displayed n r then record_block n r else [])
                      (enumerate 1 (rs @ [(a, b)])))
          @ [completion_notice, exit_prompt]
      \<and> stdout (main w) = stdout (main (only_file (csv_text (rs @ [(a, b)])))))"
proof (intro conjI impI)
  assume *: "int_records rs \<and> fscanf_d_d bad = None
      \<and> files w SOURCE_FILE = Some (csv_text rs @ bad)"
  then show "exit_code (main w) = 0"
    by (simp add: main_opened)
  from * show "stdout (main w) =
          start_banner
          @ concat (map (\<lambda>(n, r). if displayed n r then record_block n r else [])
                      (enumerate 1 rs))
          @ [completion_notice, exit_prompt]"
    by (simp add: stdout_csv)
  from * show "stdout (main w) = stdout (main (only_file (csv_text rs)))"
    by (simp add: stdout_only_file main_opened read_loop_csv_text_stop)
next
  assume "int_records (rs @ [(a, b)]) \<and> \<not> isdigit c \<and> fscanf_d_d (c # bad) = None
        \<and> files w SOURCE_FILE = Some (csv_text rs @ dec a @ '','' @ dec b @ c # bad)"
  then have nondigit: "\<not> isdigit c" and stop: "fscanf_d_d (c # bad) = None"
    and opened: "files w SOURCE_FILE = Some (csv_text rs @ dec a @ '','' @ dec b @ c # bad)"
    by simp_all
  from opened show "exit_code (main w) = 0"
    by (simp add: main_opened)
  have "read_loop loop_entry (csv_text rs @ dec a @ '','' @ dec b @ c # bad)
               = read_loop (loop_body (foldl loop_body loop_entry rs) (a, b)) (c # bad)"
    by (simp only: read_loop_csv_text read_loop_step [OF fscanf_d_d_fields [OF nondigit]])
  also have "\<dots> = foldl loop_body loop_entry (rs @ [(a, b)])"
    by (simp add: read_loop_stop [OF stop])
  finally have run: "read_loop loop_entry (csv_text rs @ dec a @ '','' @ dec b @ c # bad)
               = foldl loop_body loop_entry (rs @ [(a, b)])" .
  from run opened
  show same: "stdout (main w) = stdout (main (only_file (csv_text (rs @ [(a, b)]))))"
    by (simp only: stdout_only_file main_opened outcome.simps)
  have "files (only_file (csv_text (rs @ [(a, b)]))) SOURCE_FILE
        = Some (csv_text (rs @ [(a, b)]) @ [])"
    by (simp add: only_file_def)
  from stdout_csv [OF this fscanf_d_d_Nil] same
  show "stdout (main w) =
          start_banner
          @ concat (map (\<lambda>(n, r). if displayed n r then record_block n r else [])
                      (enumerate 1 (rs @ [(a, b)])))
          @ [completion_notice, exit_prompt]"
    by (simp only:)
qed

theorem malformed_input_ends_loop_witness:
  "int_records [(100, 98)]
   \<and> fscanf_d_d ''abc\<newline>150,92\<newline>'' = None
   \<and> files (only_file (csv_text [(100, 98)] @ ''abc\<newline>150,92\<newline>'')) SOURCE_FILE
       = Some (csv_text [(100, 98)] @ ''abc\<newline>150,92\<newline>'')
   \<and> exit_code (main (only_file (csv_text [(100, 98)] @ ''abc\<newline>150,92\<newline>''))) = 0
   \<and> stdout (main (only_file (csv_text [(100, 98)] @ ''abc\<newline>150,92\<newline>'')))
       = stdout (main (only_file (csv_text [(100, 98)])))
   \<and> \<not> isdigit CHR '',''
   \<and> fscanf_d_d '',77\<newline>150,92\<newline>'' = None
   \<and> stdout (main (only_file ''100,98,77\<newline>150,92\<newline>''))
       = stdout (main (only_file (csv_text [(100, 98)])))"
proof -
  have records: "int_records [(100, 98)]"
    by (simp add: int_records_def int_range_def)
  then have records': "int_records ([] @ [(100, 98)])"
    by simp
  have bad: "fscanf_d_d ''abc\<newline>150,92\<newline>'' = None"
    and third: "fscanf_d_d '',77\<newline>150,92\<newline>'' = None"
    and comma: "\<not> isdigit CHR '',''"
    by (simp_all add: scan_eval)
  have opened: "files (only_file (csv_text [(100, 98)] @ ''abc\<newline>150,92\<newline>'')) SOURCE_FILE
       = Some (csv_text [(100, 98)] @ ''abc\<newline>150,92\<newline>'')"
    by (simp add: only_file_def)
  have spelled: "''100,98,77\<newline>150,92\<newline>''
              = csv_text [] @ dec 100 @ '','' @ dec 98 @ CHR '','' # ''77\<newline>150,92\<newline>''"
    by (simp add: csv_text_def dec_def dec_digits.simps digit_char_def)
  have opened': "files (only_file ''100,98,77\<newline>150,92\<newline>'') SOURCE_FILE
       = Some (csv_text [] @ dec 100 @ '','' @ dec 98 @ CHR '','' # ''77\<newline>150,92\<newline>'')"
    by (simp only: spelled [symmetric]) (simp add: only_file_def)
  from malformed_input_ends_loop
         [where rs = "[(100, 98)]" and bad = "''abc\<newline>150,92\<newline>''"
            and w = "only_file (csv_text [(100, 98)] @ ''abc\<newline>150,92\<newline>'')"]
       records bad opened
  have cut: "exit_code (main (only_file (csv_text [(100, 98)] @ ''abc\<newline>150,92\<newline>''))) = 0
       \<and> stdout (main (only_file (csv_text [(100, 98)] @ ''abc\<newline>150,92\<newline>'')))
           = stdout (main (only_file (csv_text [(100, 98)])))"
    by blast
  from malformed_input_ends_loop
         [where rs = "[]" and a = 100 and b = 98 and c = "CHR '',''"
            and bad = "''77\<newline>150,92\<newline>''"
            and w = "only_file ''100,98,77\<newline>150,92\<newline>''"]
       records' third comma opened'
  have "stdout (main (only_file ''100,98,77\<newline>150,92\<newline>''))
        = stdout (main (only_file (csv_text ([] @ [(100, 98)]))))"
    by blast
  with cut records bad third comma opened show ?thesis
    by (simp only: append_Nil simp_thms)
qed

text \<open>
  The claim as it was stated fails on a line with a third field. Such a line is not two
  integers with a comma between them (no line of the input format has two commas), yet
  its first two fields are processed as a record, the first of the stream here, before
  the loop ends.
\<close>

lemma comma_free_dec: "\<forall>c \<in> set (dec i). c \<noteq> CHR '',''"
proof
  fix c
  assume "c \<in> set (dec i)"
  then have "c = CHR ''-'' \<or> isdigit c"
    by (auto simp: dec_def dec_digits_isdigit split: if_splits)
  then show "c \<noteq> CHR '',''"
    by (auto dest: isdigit_plain)
qed

lemma one_comma_csv_line: "filter (\<lambda>c. c = CHR '','') (csv_line r) = '',''"
  using comma_free_dec [of "fst r"] comma_free_dec [of "snd r"]
  by (simp add: csv_line_def)

lemma third_field_malformed: "''100,98,77\<newline>'' \<noteq> csv_line r"
proof
  assume "''100,98,77\<newline>'' = csv_line r"
  then have "filter (\<lambda>c. c = CHR '','') ''100,98,77\<newline>''
             = filter (\<lambda>c. c = CHR '','') (csv_line r)"
    by simp
  then show False
    by (simp add: one_comma_csv_line)
qed

theorem third_field_counterexample:
  "stdout (main (only_file ''100,98,77\<newline>150,92\<newline>''))
     = start_banner @ record_block 1 (100, 98) @ [completion_notice, exit_prompt]
   \<and> stdout (main (only_file ''100,98,77\<newline>150,92\<newline>''))
       \<noteq> stdout (main (only_file []))"
proof -
  have first: "fscanf_d_d ''100,98,77\<newline>150,92\<newline>'' = Some ((100, 98), '',77\<newline>150,92\<newline>'')"
    by (simp add: scan_eval)
  have second: "fscanf_d_d '',77\<newline>150,92\<newline>'' = None"
    by (simp add: scan_eval)
  have "read_loop loop_entry ''100,98,77\<newline>150,92\<newline>'' = loop_body loop_entry (100, 98)"
    by (simp add: read_loop_step [OF first] read_loop_stop [OF second])
  also have "\<dots> = foldl loop_body loop_entry [(100, 98)]"
    by simp
  finally have run: "out (read_loop loop_entry ''100,98,77\<newline>150,92\<newline>'')
                     = start_banner @ record_block 1 (100, 98)"
    by (simp only: run_records) (simp add: displayed_def)
  have stop: "out (read_loop loop_entry []) = start_banner"
    by (simp add: read_loop_stop [OF fscanf_d_d_Nil] loop_entry_def)
  have ne: "record_block 1 (100, 98) \<noteq> []"
    by (simp add: record_block_def status_block_def Let_def)
  from run stop ne show ?thesis
    by (simp add: main_def only_file_def Let_def)
qed

text \<open>
  Claim C7, as the code has it. For an input file without records, the empty file among
  them, the program prints its two banner lines, the completion notice and the prompt to
  press Enter, no status block, and exits with code 0.
\<close>

theorem empty_input_output:
  assumes "files w SOURCE_FILE = Some s" and "fscanf_d_d s = None"
  shows "exit_code (main w) = 0
         \<and> stdout (main w) = start_banner @ [completion_notice, exit_prompt]"
  using assms by (simp add: main_opened read_loop_stop loop_entry_def)

theorem empty_input_output_witness:
  "files (only_file []) SOURCE_FILE = Some []
   \<and> fscanf_d_d [] = None
   \<and> exit_code (main (only_file [])) = 0
   \<and> stdout (main (only_file [])) = start_banner @ [completion_notice, exit_prompt]"
proof -
  have opened: "files (only_file []) SOURCE_FILE = Some []"
    by (simp add: only_file_def)
  from empty_input_output [OF opened fscanf_d_d_Nil] opened show ?thesis
    by (simp add: fscanf_d_d_Nil)
qed

text \<open>The completion notice is not all that is printed for the empty file.\<close>

theorem empty_input_counterexample:
  "stdout (main (only_file [])) \<noteq> [completion_notice]"
  by (simp add: main_def only_file_def Let_def read_loop_stop [OF fscanf_d_d_Nil]
      loop_entry_def start_banner_def)

text \<open>
  Claim C8, as the code has it. The exit code and the output depend on nothing but
  whether the file \<open>patient_data.csv\<close> can be opened and what it contains: not on
  arguments, the environment, other files, or standard input. Besides reading that file
  and writing to standard output, the program takes one character from standard input,
  if there is one, before it exits with code 0, and none when the file is missing.
\<close>

theorem main_frame:
  assumes "files w SOURCE_FILE = files w' SOURCE_FILE"
  shows "exit_code (main w) = exit_code (main w')
         \<and> stdout (main w) = stdout (main w')
         \<and> stdin_rest (main w)
             = (if files w SOURCE_FILE = None then stdin w else drop 1 (stdin w))"
  using assms by (cases "files w' SOURCE_FILE") (simp_all add: main_def Let_def)

theorem main_frame_witness:
  "files (only_file ''60,0'') SOURCE_FILE
     = files ((only_file ''60,0'')
                \<lparr> argv := [''-v''], environ := [''LANG'' \<mapsto> ''tr_TR.UTF-8''],
                  files := (files (only_file ''60,0''))(''other.csv'' \<mapsto> ''7,7''),
                  stdin := ''yes'' \<rparr>) SOURCE_FILE
   \<and> stdout (main (only_file ''60,0''))
       = stdout (main ((only_file ''60,0'')
                \<lparr> argv := [''-v''], environ := [''LANG'' \<mapsto> ''tr_TR.UTF-8''],
                  files := (files (only_file ''60,0''))(''other.csv'' \<mapsto> ''7,7''),
                  stdin := ''yes'' \<rparr>))
   \<and> exit_code (main (only_file ''60,0''))
       = exit_code (main ((only_file ''60,0'')
                \<lparr> argv := [''-v''], environ := [''LANG'' \<mapsto> ''tr_TR.UTF-8''],
                  files := (files (only_file ''60,0''))(''other.csv'' \<mapsto> ''7,7''),
                  stdin := ''yes'' \<rparr>))"
proof -
  have same: "files (only_file ''60,0'') SOURCE_FILE
     = files ((only_file ''60,0'')
                \<lparr> argv := [''-v''], environ := [''LANG'' \<mapsto> ''tr_TR.UTF-8''],
                  files := (files (only_file ''60,0''))(''other.csv'' \<mapsto> ''7,7''),
                  stdin := ''yes'' \<rparr>) SOURCE_FILE"
    by (simp add: only_file_def SOURCE_FILE_def)
  from main_frame [OF same] same show ?thesis
    by simp
qed

text \<open>Standard input is read: a character waiting there is gone when the program ends.\<close>

theorem stdin_counterexample:
  "stdin_rest (main ((only_file []) \<lparr> stdin := ''q'' \<rparr>))
   \<noteq> stdin ((only_file []) \<lparr> stdin := ''q'' \<rparr>)"
  by (simp add: main_def only_file_def Let_def)

section \<open>The simulated clock\<close>

lemma step_constant: "double (1 / 1000) = 1152921504606847 / 1152921504606846976"
  by (simp add: fp_eval)

lemma clock_after_Suc: "clock_after (Suc n) = double (clock_after n + double (1 / 1000))"
  by (simp add: clock_after_def advance_clock_def)

lemma clock_after_nonneg: "0 \<le> clock_after n"
proof (induction n)
  case 0
  show ?case by (simp add: clock_after_def)
next
  case (Suc n)
  then have "0 \<le> clock_after n + double (1 / 1000)"
    by (simp add: step_constant)
  then show ?case
    unfolding clock_after_Suc double_def by (rule fl_nonneg) simp
qed

lemma clock_after_representable: "double (clock_after n) = clock_after n"
proof (cases n)
  case 0
  then show ?thesis by (simp add: clock_after_def double_def fl_def)
next
  case (Suc k)
  have "0 \<le> clock_after k + double (1 / 1000)"
    using clock_after_nonneg [of k] by (simp add: step_constant)
  then have "fl 53 (fl 53 (clock_after k + double (1 / 1000)))
             = fl 53 (clock_after k + double (1 / 1000))"
    by (rule fl_idem) simp
  then show ?thesis
    by (simp add: Suc clock_after_Suc double_def)
qed

lemma clock_after_step: "clock_after n \<le> clock_after (Suc n)"
proof -
  have "fl 53 (clock_after n) \<le> fl 53 (clock_after n + double (1 / 1000))"
    by (rule fl_mono) (simp_all add: clock_after_nonneg step_constant)
  then show ?thesis
    using clock_after_representable [of n] by (simp add: clock_after_Suc double_def)
qed

lemma clock_after_mono: "clock_after n \<le> clock_after (n + k)"
proof (induction k)
  case 0
  show ?case by simp
next
  case (Suc k)
  with clock_after_step [of "n + k"] show ?case by simp
qed

lemma clock_after_error:
  "n \<le> 60000000 \<Longrightarrow> \<bar>clock_after n - of_nat n / 1000\<bar> \<le> of_nat n / 137438953472"
proof (induction n)
  case 0
  show ?case by (simp add: clock_after_def)
next
  case (Suc n)
  let ?x = "clock_after n + double (1 / 1000)"
  define r where "r = rat_of_nat n"
  define t where "t = clock_after n"
  from Suc.prems have r: "0 \<le> r" "r \<le> 60000000"
    unfolding r_def by (simp_all only: of_nat_le_iff [symmetric, where ?'a = rat] of_nat_0_le_iff)
  from Suc have IH: "\<bar>t - r / 1000\<bar> \<le> r / 137438953472"
    by (simp add: r_def t_def)
  have x: "?x = t + 1152921504606847 / 1152921504606846976"
    by (simp add: step_constant t_def)
  have pos: "0 < ?x"
    using clock_after_nonneg [of n] by (simp add: step_constant)
  have "?x < 65536"
    unfolding x using IH r by linarith
  then have "?x < 2 powi 16"
    by simp
  from binade_less [OF pos this] have "binade ?x - 53 \<le> - 38"
    by simp
  then have "(2 :: rat) powi (binade ?x - 53) \<le> 2 powi (- 38)"
    by (simp only: two_powi_le_iff)
  with fl_error [OF pos, of 53] have "\<bar>double ?x - ?x\<bar> \<le> 1 / 274877906944"
    by (simp add: double_def power_int_minus)
  then have "\<bar>double ?x - (t + 1152921504606847 / 1152921504606846976)\<bar>
             \<le> 1 / 274877906944"
    by (simp only: x)
  with IH have "\<bar>double ?x - (r + 1) / 1000\<bar> \<le> (r + 1) / 137438953472"
    unfolding abs_le_iff by (simp add: field_simps)
  moreover have "rat_of_nat (Suc n) = r + 1"
    by (simp add: r_def)
  ultimately show ?case
    by (simp only: clock_after_Suc)
qed

lemma shown_millis_clock_after:
  assumes "n \<le> 60000000"
  shows "shown_millis (clock_after n) = int n"
proof -
  define r where "r = rat_of_nat n"
  from assms have r: "0 \<le> r" "r \<le> 60000000"
    unfolding r_def by (simp_all only: of_nat_le_iff [symmetric, where ?'a = rat] of_nat_0_le_iff)
  from clock_after_error [OF assms] have "\<bar>clock_after n - r / 1000\<bar> \<le> r / 137438953472"
    by (simp only: r_def)
  with r have "\<bar>clock_after n * 1000 - r\<bar> < 1 / 2"
    by linarith
  moreover have "r = rat_of_int (int n)"
    by (simp add: r_def)
  ultimately have "\<bar>clock_after n * 1000 - rat_of_int (int n)\<bar> < 1 / 2"
    by (simp only:)
  then show ?thesis
    unfolding shown_millis_def by (rule round_half_even_near)
qed

lemma three_records:
  "''100,98\<newline>150,92\<newline>60,0\<newline>'' = csv_text [(100, 98), (150, 92), (60, 0)]"
  by (simp add: csv_text_def csv_line_def dec_def dec_digits.simps digit_char_def)

lemma enumerate_three: "enumerate 1 [a, b, c] = [(1, a), (2, b), (3, c)]"
  by (simp add: numeral_3_eq_3 numeral_2_eq_2)

lemma blocks_three:
  "concat (map (\<lambda>(n, r). if displayed n r then record_block n r else [])
             (enumerate 1 [(100, 98), (150, 92), (60, 0)]))
   = record_block 1 (100, 98) @ record_block 2 (150, 92) @ record_block 3 (60, 0)"
proof -
  have shown: "displayed 1 (100, 98)" "displayed 2 (150, 92)" "displayed 3 (60, 0)"
    by (simp_all add: displayed_def evaluate_alarm_condition_def STATUS_WARNING_def
        STATUS_FAILURE_def)
  show ?thesis
    by (simp only: enumerate_three list.map concat.simps prod.case shown if_True
        append_Nil2 append_assoc)
qed

text \<open>
  Claim C6, as the code has it. The clock is a \<open>double\<close>. It starts at 0 and is advanced
  once in every pass through the loop body, after the block of the pass, if any, has been
  printed with the value before the advance; after \<open>n\<close> records it holds the value that
  \<open>n\<close> rounded additions of the \<open>double\<close> nearest to 0.001 give. It never decreases.
  The time shown with three decimals for the \<open>n\<close>-th record is \<open>(n - 1) * 0.001\<close> for each
  of the first 60,000,000 records of a stream; the three records of the input
  \<open>100,98\<close>, \<open>150,92\<close>, \<open>60,0\<close> are all printed, with the times 0.000, 0.001 and 0.002.
\<close>

theorem simulated_clock:
  "sys_time_sec loop_entry = 0
   \<and> sys_time_sec (loop_body v r) = advance_clock (sys_time_sec v)
   \<and> (out (loop_body v r) = out v
        \<or> out (loop_body v r)
            = out v @ status_block (sys_time_sec v) (fst r) (snd r) (compute_pwm_register (fst r))
                        (fst (evaluate_alarm_condition (snd r)))
                        (snd (evaluate_alarm_condition (snd r))))
   \<and> sys_time_sec (foldl loop_body loop_entry rs) = clock_after (length rs)
   \<and> clock_after n \<le> clock_after (n + k)
   \<and> (1 \<le> n \<and> n \<le> 60000000 \<longrightarrow> shown_millis (clock_after (n - 1)) = int n - 1)
   \<and> (files w SOURCE_FILE = Some ''100,98\<newline>150,92\<newline>60,0\<newline>'' \<longrightarrow>
        stdout (main w)
          = start_banner
            @ record_block 1 (100, 98) @ record_block 2 (150, 92) @ record_block 3 (60, 0)
            @ [completion_notice, exit_prompt])"
proof (intro conjI impI)
  show "sys_time_sec loop_entry = 0"
    by (simp add: loop_entry_def)
  show "sys_time_sec (loop_body v r) = advance_clock (sys_time_sec v)"
    by (rule loop_body_fields)
  show "out (loop_body v r) = out v
        \<or> out (loop_body v r)
            = out v @ status_block (sys_time_sec v) (fst r) (snd r) (compute_pwm_register (fst r))
                        (fst (evaluate_alarm_condition (snd r)))
                        (snd (evaluate_alarm_condition (snd r)))"
    by (simp add: loop_body_out)
  show "sys_time_sec (foldl loop_body loop_entry rs) = clock_after (length rs)"
    by (simp add: run_records)
  show "clock_after n \<le> clock_after (n + k)"
    by (rule clock_after_mono)
next
  assume "1 \<le> n \<and> n \<le> 60000000"
  then have "n - 1 \<le> 60000000" and "int (n - 1) = int n - 1"
    by linarith+
  with shown_millis_clock_after [of "n - 1"]
  show "shown_millis (clock_after (n - 1)) = int n - 1"
    by simp
next
  assume "files w SOURCE_FILE = Some ''100,98\<newline>150,92\<newline>60,0\<newline>''"
  then have "files w SOURCE_FILE = Some (csv_text [(100, 98), (150, 92), (60, 0)] @ [])"
    by (simp only: three_records append_Nil2)
  from stdout_csv [OF this fscanf_d_d_Nil]
  show "stdout (main w)
          = start_banner
            @ record_block 1 (100, 98) @ record_block 2 (150, 92) @ record_block 3 (60, 0)
            @ [completion_notice, exit_prompt]"
    by (simp only: blocks_three append_assoc)
qed

theorem simulated_clock_witness:
  "(1 :: nat) \<le> 3 \<and> (3 :: nat) \<le> 60000000
   \<and> shown_millis (clock_after 0) = 0
   \<and> shown_millis (clock_after 1) = 1
   \<and> shown_millis (clock_after 2) = 2
   \<and> files (only_file ''100,98\<newline>150,92\<newline>60,0\<newline>'') SOURCE_FILE
       = Some ''100,98\<newline>150,92\<newline>60,0\<newline>''
   \<and> stdout (main (only_file ''100,98\<newline>150,92\<newline>60,0\<newline>''))
       = start_banner
         @ record_block 1 (100, 98) @ record_block 2 (150, 92) @ record_block 3 (60, 0)
         @ [completion_notice, exit_prompt]"
  using simulated_clock [of _ _ _ 1 _ "only_file ''100,98\<newline>150,92\<newline>60,0\<newline>''"]
    simulated_clock [of _ _ _ 2] simulated_clock [of _ _ _ 3]
  by (simp add: only_file_def)

text \<open>
  The clock is not advanced by exactly 0.001, which no \<open>double\<close> holds: after the first
  record it stands at 1152921504606847 / 2^60.
\<close>

theorem clock_step_counterexample:
  "sys_time_sec (loop_body loop_entry (100, 98)) \<noteq> sys_time_sec loop_entry + 1 / 1000
   \<and> sys_time_sec (loop_body loop_entry (100, 98)) = 1152921504606847 / 2 ^ 60"
  by (simp add: loop_body_fields loop_entry_def advance_clock_def fp_eval)

end
